theory Spec2Isabelle
  imports Complex_Main "HOL-Library.Sublist"
begin

section \<open>Text\<close>

text \<open>
  A Python \<open>str\<close> is a sequence of Unicode code points; it is modelled as a list of
  natural numbers, one per code point, so that \<open>length\<close> is Python's \<open>len\<close>.
  \<open>S\<close> turns a literal of the source into that representation.
\<close>

type_synonym pystr = "nat list"

definition S :: "string \<Rightarrow> pystr" where
  "S cs = map of_char cs"

text \<open>
  What \<open>\s\<close> matches in a \<open>str\<close> pattern and what \<open>str.strip()\<close> removes: the code
  points for which \<open>str.isspace\<close> holds.
\<close>

definition is_space :: "nat \<Rightarrow> bool" where
  "is_space c \<longleftrightarrow>
     (9 \<le> c \<and> c \<le> 13) \<or> (28 \<le> c \<and> c \<le> 32) \<or> c = 133 \<or> c = 160 \<or> c = 5760 \<or>
     (8192 \<le> c \<and> c \<le> 8202) \<or> c = 8232 \<or> c = 8233 \<or> c = 8239 \<or> c = 8287 \<or> c = 12288"

definition strip :: "pystr \<Rightarrow> pystr" where
  "strip s = rev (dropWhile is_space (rev (dropWhile is_space s)))"

text \<open>\<open>str(idx)\<close> inside an f-string: the decimal digits of a non-negative integer.\<close>

fun digits :: "nat \<Rightarrow> pystr" where
  "digits n = (if n < 10 then [48 + n] else digits (n div 10) @ [48 + n mod 10])"

declare digits.simps [simp del]

section \<open>Matching\<close>

text \<open>
  \<open>starts_with m p s\<close>: the literal pattern \<open>p\<close> matches at the start of \<open>s\<close>, where
  \<open>m\<close> says which text character a pattern character matches (equality, or
  \<open>ci_match\<close> under \<open>re.IGNORECASE\<close>).
\<close>

fun starts_with :: "(nat \<Rightarrow> nat \<Rightarrow> bool) \<Rightarrow> pystr \<Rightarrow> pystr \<Rightarrow> bool" where
  "starts_with m [] s = True"
| "starts_with m (p # ps) [] = False"
| "starts_with m (p # ps) (c # cs) = (m p c \<and> starts_with m ps cs)"

text \<open>
  The first (leftmost) place where the literal \<open>p\<close> matches in \<open>s\<close>: the text before
  it and the text after it.
\<close>

fun find_at :: "(nat \<Rightarrow> nat \<Rightarrow> bool) \<Rightarrow> pystr \<Rightarrow> pystr \<Rightarrow> (pystr \<times> pystr) option" where
  "find_at m p [] = (if p = [] then Some ([], []) else None)"
| "find_at m p (c # cs) =
     (if starts_with m p (c # cs) then Some ([], drop (length p) (c # cs))
      else (case find_at m p cs of None \<Rightarrow> None | Some (b, a) \<Rightarrow> Some (c # b, a)))"

text \<open>
  A lower-case pattern letter under \<open>re.IGNORECASE\<close> in a \<open>str\<close> pattern matches itself,
  its upper-case form, and the code points that case folding identifies with it:
  U+017F for \<open>s\<close>, U+0130 and U+0131 for \<open>i\<close>, U+212A for \<open>k\<close>. Every other pattern
  character of this program (\<open><\<close>, \<open>/\<close>, \<open>>\<close>) matches itself only.
\<close>

definition ci_match :: "nat \<Rightarrow> nat \<Rightarrow> bool" where
  "ci_match p c \<longleftrightarrow>
     c = p \<or> (97 \<le> p \<and> p \<le> 122 \<and> c + 32 = p) \<or> (p = 115 \<and> c = 383) \<or>
     (p = 105 \<and> (c = 304 \<or> c = 305)) \<or> (p = 107 \<and> c = 8490)"

lemma find_at_length: "find_at m p s = Some (b, a) \<Longrightarrow> length a \<le> length s"
proof (induction s arbitrary: b)
  case Nil
  then show ?case by (simp split: if_splits)
next
  case (Cons c cs)
  show ?case
  proof (cases "starts_with m p (c # cs)")
    case True
    with Cons.prems show ?thesis by auto
  next
    case False
    with Cons.prems obtain b' where "find_at m p cs = Some (b', a)"
      by (auto split: option.splits)
    from Cons.IH [OF this] show ?thesis by simp
  qed
qed

section \<open>The substitutions\<close>

text \<open>
  Each \<open>re.sub\<close> of the source is a scan from left to right over the text: at a place
  where the pattern matches, the replacement is emitted and the scan goes on after the
  match; elsewhere one character is copied. No pattern of the program matches the
  empty text.
\<close>

text \<open>
  \<open>re.sub(op .*? cl, '', s, flags=re.DOTALL)\<close> for literal delimiters \<open>op\<close> (not empty)
  and \<open>cl\<close>: a match starts at an \<open>op\<close> that has a \<open>cl\<close> somewhere after it and ends with
  the nearest such \<open>cl\<close>.
\<close>

function sub_delimited :: "pystr \<Rightarrow> pystr \<Rightarrow> pystr \<Rightarrow> pystr" where
  "sub_delimited op cl [] = []"
| "sub_delimited op cl (c # cs) =
     (case (if starts_with (=) op (c # cs) then find_at (=) cl (drop (length op - 1) cs) else None) of
        Some (body, rest) \<Rightarrow> sub_delimited op cl rest
      | None \<Rightarrow> c # sub_delimited op cl cs)"
  by pat_completeness auto
termination
proof (relation "measure (\<lambda>(op, cl, s). length s)")
  fix op cl :: pystr and c :: nat and cs x2 body rest
  assume "(if starts_with (=) op (c # cs) then find_at (=) cl (drop (length op - 1) cs) else None) = Some x2"
    and "(body, rest) = x2"
  then have "find_at (=) cl (drop (length op - 1) cs) = Some (body, rest)"
    by (auto split: if_splits)
  from find_at_length [OF this]
  show "((op, cl, rest), (op, cl, c # cs)) \<in> measure (\<lambda>(op, cl, s). length s)"
    by simp
qed auto

text \<open>\<open>re.sub(r'\s+', ' ', s)\<close>: every maximal run of whitespace becomes one space.\<close>

function sub_ws_runs :: "pystr \<Rightarrow> pystr" where
  "sub_ws_runs [] = []"
| "sub_ws_runs (c # cs) =
     (if is_space c then 32 # sub_ws_runs (dropWhile is_space cs) else c # sub_ws_runs cs)"
  by pat_completeness auto
termination
  by (relation "measure length") (auto simp: le_imp_less_Suc length_dropWhile_le)

text \<open>
  \<open>re.sub(r'\s*([...])\s*', r'\1', s)\<close> for a character class \<open>P\<close> without whitespace:
  a match is a (possibly empty) whitespace run, one character of the class, and the
  whitespace run after it; the character alone is kept.
\<close>

function sub_around :: "(nat \<Rightarrow> bool) \<Rightarrow> pystr \<Rightarrow> pystr" where
  "sub_around P [] = []"
| "sub_around P (c # cs) =
     (case dropWhile is_space (c # cs) of
        [] \<Rightarrow> c # sub_around P cs
      | d # ds \<Rightarrow> if P d then d # sub_around P (dropWhile is_space ds) else c # sub_around P cs)"
  by pat_completeness auto
termination
proof (relation "measure (\<lambda>(P, s). length s)")
  fix P :: "nat \<Rightarrow> bool" and c :: nat and cs d ds
  assume "dropWhile is_space (c # cs) = d # ds"
  then have "length (d # ds) \<le> length (c # cs)"
    by (metis length_dropWhile_le)
  moreover have "length (dropWhile is_space ds) \<le> length ds"
    by (rule length_dropWhile_le)
  ultimately show "((P, dropWhile is_space ds), (P, c # cs)) \<in> measure (\<lambda>(P, s). length s)"
    by simp
qed auto

text \<open>
  \<open>s.replace(old, new)\<close>, and \<open>re.sub\<close> of a literal pattern: the occurrences of \<open>old\<close>
  from left to right, not overlapping; the text put in is not searched again.
  \<open>old\<close> is not empty at any call of the program.
\<close>

function replace :: "pystr \<Rightarrow> pystr \<Rightarrow> pystr \<Rightarrow> pystr" where
  "replace old new [] = []"
| "replace old new (c # cs) =
     (if starts_with (=) old (c # cs) then new @ replace old new (drop (length old - 1) cs)
      else c # replace old new cs)"
  by pat_completeness auto
termination
  by (relation "measure (\<lambda>(old, new, s). length s)") auto

section \<open>minify\_css\<close>

definition css_special :: "nat \<Rightarrow> bool" where
  "css_special c \<longleftrightarrow> c \<in> set (S ''{}:;,>+~'')"

definition paren :: "nat \<Rightarrow> bool" where
  "paren c \<longleftrightarrow> c \<in> set (S ''()'')"

definition minify_css :: "pystr \<Rightarrow> pystr" where
  "minify_css css_code =
     (let css1 = sub_delimited (S ''/*'') (S ''*/'') css_code;
          css2 = sub_ws_runs css1;
          css3 = sub_around css_special css2;
          css4 = sub_around paren css3;
          css5 = replace (S '';}'') (S ''}'') css4
      in strip css5)"

section \<open>minify\_js\<close>

text \<open>
  \<open>re.sub(r'//.*?$', '', s, flags=re.MULTILINE)\<close>: without \<open>re.DOTALL\<close> the dot matches
  every character but the newline, and \<open>$\<close> holds at the end of the text and before a
  newline, so a match runs from \<open>//\<close> up to the next newline or the end of the text.
\<close>

function sub_line_comments :: "pystr \<Rightarrow> pystr" where
  "sub_line_comments [] = []"
| "sub_line_comments (c # cs) =
     (if starts_with (=) (S ''//'') (c # cs)
      then sub_line_comments (dropWhile (\<lambda>x. x \<noteq> 10) (drop 1 cs))
      else c # sub_line_comments cs)"
  by pat_completeness auto
termination
proof (relation "measure length")
  fix c :: nat and cs :: pystr
  have "length (dropWhile (\<lambda>x. x \<noteq> 10) (drop 1 cs)) \<le> length (drop 1 cs)"
    by (rule length_dropWhile_le)
  then show "(dropWhile (\<lambda>x. x \<noteq> 10) (drop 1 cs), c # cs) \<in> measure length"
    by simp
qed auto

definition js_punct :: "nat \<Rightarrow> bool" where
  "js_punct c \<longleftrightarrow> c \<in> set (S ''{}()[];,:<>!=+-*/%&|^'')"

text \<open>
  \<open>\w\<close> in a \<open>str\<close> pattern: the ASCII letters, digits and the underscore, and beyond
  ASCII the alphanumeric code points of the Unicode database, which the program does
  not contain: they are the parameter \<open>W\<close>.
\<close>

definition alnum :: "nat \<Rightarrow> bool" where
  "alnum c \<longleftrightarrow> (48 \<le> c \<and> c \<le> 57) \<or> (65 \<le> c \<and> c \<le> 90) \<or> (97 \<le> c \<and> c \<le> 122)"

definition is_word :: "(nat \<Rightarrow> bool) \<Rightarrow> nat \<Rightarrow> bool" where
  "is_word W c \<longleftrightarrow> (if c < 128 then alnum c \<or> c = 95 else W c)"

text \<open>The class \<open>[a-zA-Z0-9_$]\<close>.\<close>

definition ident_char :: "nat \<Rightarrow> bool" where
  "ident_char c \<longleftrightarrow> alnum c \<or> c = 95 \<or> c = 36"

text \<open>
  \<open>\b\<close> between the character before a place (none at the start of the text) and
  the character at it (none at the end): exactly one of the two is a word character.
\<close>

definition word_at :: "(nat \<Rightarrow> bool) \<Rightarrow> nat option \<Rightarrow> bool" where
  "word_at W x = (case x of None \<Rightarrow> False | Some c \<Rightarrow> is_word W c)"

definition boundary :: "(nat \<Rightarrow> bool) \<Rightarrow> nat option \<Rightarrow> nat option \<Rightarrow> bool" where
  "boundary W prev next \<longleftrightarrow> word_at W prev \<noteq> word_at W next"

definition first_char :: "pystr \<Rightarrow> nat option" where
  "first_char s = (case s of [] \<Rightarrow> None | c # cs \<Rightarrow> Some c)"

definition reserved :: "pystr list" where
  "reserved = map S [''return'', ''var'', ''let'', ''const'', ''if'', ''else'', ''for'', ''while'',
     ''function'', ''class'', ''new'', ''typeof'', ''delete'', ''instanceof'']"

definition reserved_in_of :: "pystr list" where
  "reserved_in_of = reserved @ map S [''in'', ''of'']"

text \<open>
  The alternation \<open>\b(return|var|...)\b\<close> at a place of the text, \<open>prev\<close> being the
  character in front of it: the first alternative, in the order written, that is there
  with a word boundary on both sides and after which the rest of the pattern
  (\<open>follows\<close>, a condition on the text after the keyword) matches.
\<close>

definition keyword_at ::
  "(nat \<Rightarrow> bool) \<Rightarrow> pystr list \<Rightarrow> (pystr \<Rightarrow> bool) \<Rightarrow> nat option \<Rightarrow> pystr \<Rightarrow> pystr option" where
  "keyword_at W kws follows prev s =
     find (\<lambda>kw. starts_with (=) kw s \<and> boundary W prev (first_char s) \<and>
                 boundary W (Some (last kw)) (first_char (drop (length kw) s)) \<and>
                 follows (drop (length kw) s)) kws"

definition ident_next :: "pystr \<Rightarrow> bool" where
  "ident_next s = (case s of [] \<Rightarrow> False | d # ds \<Rightarrow> ident_char d)"

text \<open>
  \<open>re.sub(r'\b(return|...|instanceof)\b([a-zA-Z0-9_$])', r'\1 \2', s)\<close>; \<open>prev\<close> is the
  character of the text in front of the place the scan has reached.
\<close>

function sub_keyword_after :: "(nat \<Rightarrow> bool) \<Rightarrow> nat option \<Rightarrow> pystr \<Rightarrow> pystr" where
  "sub_keyword_after W prev [] = []"
| "sub_keyword_after W prev (c # cs) =
     (case keyword_at W reserved ident_next prev (c # cs) of
        None \<Rightarrow> c # sub_keyword_after W (Some c) cs
      | Some kw \<Rightarrow>
          (case drop (length kw) (c # cs) of
             [] \<Rightarrow> c # sub_keyword_after W (Some c) cs
           | d # ds \<Rightarrow> kw @ [32, d] @ sub_keyword_after W (Some d) ds))"
  by pat_completeness auto
termination
proof (relation "measure (\<lambda>(W, prev, s). length s)")
  fix W :: "nat \<Rightarrow> bool" and prev :: "nat option" and c :: nat and cs kw :: pystr and d ds
  assume "drop (length kw) (c # cs) = d # ds"
  then have "length (d # ds) \<le> length (c # cs)"
    by (metis diff_le_self length_drop)
  then show "((W, Some d, ds), (W, prev, c # cs)) \<in> measure (\<lambda>(W, prev, s). length s)"
    by simp
qed auto

text \<open>\<open>re.sub(r'([a-zA-Z0-9_$])\b(return|...|instanceof|in|of)\b', r'\1 \2', s)\<close>.\<close>

function sub_keyword_before :: "(nat \<Rightarrow> bool) \<Rightarrow> pystr \<Rightarrow> pystr" where
  "sub_keyword_before W [] = []"
| "sub_keyword_before W (c # cs) =
     (case (if ident_char c then keyword_at W reserved_in_of (\<lambda>r. True) (Some c) cs else None) of
        None \<Rightarrow> c # sub_keyword_before W cs
      | Some kw \<Rightarrow> c # 32 # kw @ sub_keyword_before W (drop (length kw) cs))"
  by pat_completeness auto
termination
  by (relation "measure (\<lambda>(W, s). length s)") auto

definition minify_js :: "(nat \<Rightarrow> bool) \<Rightarrow> pystr \<Rightarrow> pystr" where
  "minify_js W js_code =
     (let js1 = sub_line_comments js_code;
          js2 = sub_delimited (S ''/*'') (S ''*/'') js1;
          js3 = sub_ws_runs js2;
          js4 = sub_around js_punct js3;
          js5 = sub_keyword_after W None js4;
          js6 = sub_keyword_before W js5;
          js7 = replace (S '')in('') (S '') in('') js6;
          js8 = replace (S '')in['') (S '') in['') js7;
          js9 = replace (S '')of('') (S '') of('') js8;
          js10 = replace (S '')of['') (S '') of['') js9
      in strip js10)"

section \<open>minify\_html\<close>

text \<open>The f-strings \<open>___STYLE_BLOCK_{idx}___\<close> and \<open>___SCRIPT_BLOCK_{idx}___\<close>.\<close>

definition style_marker :: "nat \<Rightarrow> pystr" where
  "style_marker idx = S ''___STYLE_BLOCK_'' @ digits idx @ S ''___''"

definition script_marker :: "nat \<Rightarrow> pystr" where
  "script_marker idx = S ''___SCRIPT_BLOCK_'' @ digits idx @ S ''___''"

text \<open>
  The callback \<open>replace_style\<close>: from the list \<open>style_blocks\<close> and group 1 of the match
  to the list with the new block appended and the text put in place of the match.
\<close>

definition replace_style :: "pystr list \<Rightarrow> pystr \<Rightarrow> pystr list \<times> pystr" where
  "replace_style style_blocks group1 =
     (let minified = minify_css group1;
          idx = length style_blocks
      in (style_blocks @ [S ''<style>'' @ minified @ S ''</style>''], style_marker idx))"

text \<open>The callback \<open>replace_script\<close>, from groups 1 and 2 of the match.\<close>

definition replace_script :: "(nat \<Rightarrow> bool) \<Rightarrow> pystr list \<Rightarrow> pystr \<Rightarrow> pystr \<Rightarrow> pystr list \<times> pystr" where
  "replace_script W script_blocks opening_tag js_content =
     (let minified = (if strip js_content = [] then js_content else minify_js W js_content);
          idx = length script_blocks
      in (script_blocks @ [S ''<script'' @ opening_tag @ S ''>'' @ minified @ S ''</script>''],
          script_marker idx))"

text \<open>
  A match of \<open><tag([^>]*)>(.*?)</tag>\<close> under \<open>re.DOTALL | re.IGNORECASE\<close> at the start
  of \<open>s\<close>, for the literals \<open>op\<close> (\<open><style\<close>, \<open><script\<close>) and \<open>cl\<close>: the attribute text runs
  up to the first \<open>>\<close>, the content up to the nearest closing tag after it. The result
  is the attribute text, the content and the text after the match.
\<close>

definition block_at :: "pystr \<Rightarrow> pystr \<Rightarrow> pystr \<Rightarrow> (pystr \<times> pystr \<times> pystr) option" where
  "block_at op cl s =
     (if starts_with ci_match op s then
        (case dropWhile (\<lambda>x. x \<noteq> 62) (drop (length op) s) of
           [] \<Rightarrow> None
         | gt # r \<Rightarrow>
             (case find_at ci_match cl r of
                None \<Rightarrow> None
              | Some (content, rest) \<Rightarrow>
                  Some (takeWhile (\<lambda>x. x \<noteq> 62) (drop (length op) s), content, rest)))
      else None)"

lemma block_at_length:
  assumes "block_at op cl s = Some (attrs, content, rest)"
  shows "length rest < length s"
proof -
  from assms obtain gt r where dw: "dropWhile (\<lambda>x. x \<noteq> 62) (drop (length op) s) = gt # r"
    and fa: "find_at ci_match cl r = Some (content, rest)"
    by (auto simp: block_at_def split: if_splits list.splits option.splits)
  have "length (gt # r) \<le> length (drop (length op) s)"
    by (metis dw length_dropWhile_le)
  then have "length r < length s" by simp
  with find_at_length [OF fa] show ?thesis by simp
qed

text \<open>
  \<open>re.sub(r'<style[^>]*>(.*?)</style>', replace_style, s, flags=re.DOTALL | re.IGNORECASE)\<close>,
  threading the list \<open>style_blocks\<close> that the callback appends to.
\<close>

function sub_style :: "pystr list \<Rightarrow> pystr \<Rightarrow> pystr list \<times> pystr" where
  "sub_style style_blocks [] = (style_blocks, [])"
| "sub_style style_blocks (c # cs) =
     (case block_at (S ''<style'') (S ''</style>'') (c # cs) of
        None \<Rightarrow> (case sub_style style_blocks cs of (blocks, out) \<Rightarrow> (blocks, c # out))
      | Some (attrs, content, rest) \<Rightarrow>
          (case sub_style (fst (replace_style style_blocks content)) rest of
             (blocks, out) \<Rightarrow> (blocks, snd (replace_style style_blocks content) @ out)))"
  by pat_completeness auto
termination
proof (relation "measure (\<lambda>(blocks, s). length s)")
  fix style_blocks :: "pystr list" and c :: nat and cs :: pystr and x2 attrs y content rest
  assume "block_at (S ''<style'') (S ''</style>'') (c # cs) = Some x2"
    and "(attrs, y) = x2" and "(content, rest) = y"
  then have "block_at (S ''<style'') (S ''</style>'') (c # cs) = Some (attrs, content, rest)"
    by simp
  from block_at_length [OF this]
  show "((fst (replace_style style_blocks content), rest), (style_blocks, c # cs))
          \<in> measure (\<lambda>(blocks, s). length s)"
    by simp
qed auto

text \<open>
  \<open>re.sub(r'<script([^>]*)>(.*?)</script>', replace_script, s, flags=re.DOTALL | re.IGNORECASE)\<close>.
\<close>

function sub_script :: "(nat \<Rightarrow> bool) \<Rightarrow> pystr list \<Rightarrow> pystr \<Rightarrow> pystr list \<times> pystr" where
  "sub_script W script_blocks [] = (script_blocks, [])"
| "sub_script W script_blocks (c # cs) =
     (case block_at (S ''<script'') (S ''</script>'') (c # cs) of
        None \<Rightarrow> (case sub_script W script_blocks cs of (blocks, out) \<Rightarrow> (blocks, c # out))
      | Some (attrs, content, rest) \<Rightarrow>
          (case sub_script W (fst (replace_script W script_blocks attrs content)) rest of
             (blocks, out) \<Rightarrow> (blocks, snd (replace_script W script_blocks attrs content) @ out)))"
  by pat_completeness auto
termination
proof (relation "measure (\<lambda>(W, blocks, s). length s)")
  fix W :: "nat \<Rightarrow> bool" and script_blocks :: "pystr list" and c :: nat and cs :: pystr
    and x2 attrs y content rest
  assume "block_at (S ''<script'') (S ''</script>'') (c # cs) = Some x2"
    and "(attrs, y) = x2" and "(content, rest) = y"
  then have "block_at (S ''<script'') (S ''</script>'') (c # cs) = Some (attrs, content, rest)"
    by simp
  from block_at_length [OF this]
  show "((W, fst (replace_script W script_blocks attrs content), rest), (W, script_blocks, c # cs))
          \<in> measure (\<lambda>(W, blocks, s). length s)"
    by simp
qed auto

text \<open>\<open>re.sub(r'>\s+<', '><', s)\<close>.\<close>

function sub_tag_gap :: "pystr \<Rightarrow> pystr" where
  "sub_tag_gap [] = []"
| "sub_tag_gap (c # cs) =
     (case (if c = 62 \<and> takeWhile is_space cs \<noteq> [] then dropWhile is_space cs else []) of
        [] \<Rightarrow> c # sub_tag_gap cs
      | d # ds \<Rightarrow> if d = 60 then 62 # 60 # sub_tag_gap ds else c # sub_tag_gap cs)"
  by pat_completeness auto
termination
proof (relation "measure length")
  fix c :: nat and cs :: pystr and d ds
  assume "(if c = 62 \<and> takeWhile is_space cs \<noteq> [] then dropWhile is_space cs else []) = d # ds"
  then have "dropWhile is_space cs = d # ds"
    by (auto split: if_splits)
  then have "length (d # ds) \<le> length cs"
    by (metis length_dropWhile_le)
  then show "(ds, c # cs) \<in> measure length"
    by simp
qed auto

text \<open>
  The loops \<open>for idx, block in enumerate(blocks): html_code = html_code.replace(marker, block)\<close>,
  \<open>idx\<close> being the index of the first block of the list still to come.
\<close>

fun restore :: "(nat \<Rightarrow> pystr) \<Rightarrow> nat \<Rightarrow> pystr list \<Rightarrow> pystr \<Rightarrow> pystr" where
  "restore marker idx [] html_code = html_code"
| "restore marker idx (block # blocks) html_code =
     restore marker (idx + 1) blocks (replace (marker idx) block html_code)"

text \<open>
  The passes of \<open>minify_html\<close> between the extraction of the blocks and their
  restoration: comments, whitespace runs, whitespace between tags, \<open>strip\<close>.
\<close>

definition collapse_html :: "pystr \<Rightarrow> pystr" where
  "collapse_html html_code =
     strip (sub_tag_gap (sub_ws_runs (sub_delimited (S ''<!--'') (S ''-->'') html_code)))"

definition minify_html :: "(nat \<Rightarrow> bool) \<Rightarrow> pystr \<Rightarrow> pystr" where
  "minify_html W html_code =
     (case sub_style [] html_code of
        (style_blocks, html1) \<Rightarrow>
          (case sub_script W [] html1 of
             (script_blocks, html2) \<Rightarrow>
               restore script_marker 0 script_blocks
                 (restore style_marker 0 style_blocks (collapse_html html2))))"

section \<open>minify\_file\<close>

text \<open>
  The file system is a map from paths to the text of the files, and what the function
  prints is a list of messages. \<open>min_name\<close> is the path that \<open>pathlib\<close> derives for the
  output when the caller gives none (\<open>parent / stem.min suffix\<close>). The reduction is the
  exact quotient; Python rounds it to a float. Dividing by zero raises.
\<close>

datatype py_error = ZeroDivisionError

datatype message =
  NotFound pystr | Saved pystr | OriginalSize nat | MinifiedSize nat | Reduction real

record world =
  files :: "pystr \<rightharpoonup> pystr"
  printed :: "message list"

definition minify_file ::
  "(nat \<Rightarrow> bool) \<Rightarrow> (pystr \<Rightarrow> pystr) \<Rightarrow> world \<Rightarrow> pystr \<Rightarrow> pystr option \<Rightarrow> world \<times> (py_error + bool)" where
  "minify_file W min_name w input_file output_file =
     (case files w input_file of
        None \<Rightarrow> (w\<lparr>printed := printed w @ [NotFound input_file]\<rparr>, Inr False)
      | Some html_content \<Rightarrow>
          (let minified_html = minify_html W html_content;
               output_path = (case output_file of None \<Rightarrow> min_name input_file | Some path \<Rightarrow> path);
               w1 = w\<lparr>files := (files w)(output_path \<mapsto> minified_html)\<rparr>;
               original_size = length html_content;
               minified_size = length minified_html
           in if original_size = 0 then (w1, Inl ZeroDivisionError)
              else (w1\<lparr>printed := printed w1 @
                      [Saved output_path, OriginalSize original_size, MinifiedSize minified_size,
                       Reduction (real_of_int (int original_size - int minified_size)
                                    / real original_size * 100)]\<rparr>,
                    Inr True)))"

section \<open>Properties of texts\<close>

text \<open>Two space characters next to each other.\<close>

fun has_double_space :: "pystr \<Rightarrow> bool" where
  "has_double_space (a # b # s) = ((a = 32 \<and> b = 32) \<or> has_double_space (b # s))"
| "has_double_space s = False"

text \<open>A \<open>>\<close>, then one whitespace character or more, then a \<open><\<close>.\<close>

fun has_tag_gap :: "pystr \<Rightarrow> bool" where
  "has_tag_gap [] = False"
| "has_tag_gap (c # cs) =
     ((c = 62 \<and> takeWhile is_space cs \<noteq> [] \<and> first_char (dropWhile is_space cs) = Some 60)
      \<or> has_tag_gap cs)"


text \<open>The literal \<open>p\<close> stands somewhere in the text.\<close>

definition contains :: "pystr \<Rightarrow> pystr \<Rightarrow> bool" where
  "contains p s \<longleftrightarrow> find_at (=) p s \<noteq> None"

text \<open>An \<open>op\<close> stands in the text and a \<open>cl\<close> after it: a comment, for the two delimiters.\<close>

definition has_delimited :: "pystr \<Rightarrow> pystr \<Rightarrow> pystr \<Rightarrow> bool" where
  "has_delimited op cl s =
     (case find_at (=) op s of None \<Rightarrow> False | Some (b, rest) \<Rightarrow> contains cl rest)"

text \<open>Two whitespace characters next to each other; a text that starts with whitespace.\<close>

fun has_double_ws :: "pystr \<Rightarrow> bool" where
  "has_double_ws (a # b # s) = ((is_space a \<and> is_space b) \<or> has_double_ws (b # s))"
| "has_double_ws s = False"

definition starts_space :: "pystr \<Rightarrow> bool" where
  "starts_space s = (case s of [] \<Rightarrow> False | c # cs \<Rightarrow> is_space c)"

text \<open>
  No proper beginning of \<open>op\<close> stands directly in front of an \<open>op\<close>: where this holds,
  removing a comment cannot join what is in front of it with what follows into a new \<open>op\<close>.
\<close>

definition joint_free :: "pystr \<Rightarrow> pystr \<Rightarrow> bool" where
  "joint_free op s = list_all (\<lambda>k. \<not> contains (take k op @ op) s) [1..<length op]"

text \<open>The example document of the specification, line by line.\<close>

definition example_html :: pystr where
  "example_html =
     S ''<!-- c -->'' @ [10] @ S ''<div>'' @ [10] @ S ''  <p>Hi</p>'' @ [10] @ S ''</div>'' @ [10] @
     S ''<style>'' @ [10] @ S ''  a  {  color : red ;  }'' @ [10] @ S ''</style>'' @ [10] @
     S ''<script>'' @ [10] @ S ''  var x = 1; // note'' @ [10] @ S ''  if (x) { return x; }'' @ [10] @
     S ''</script>''"

section \<open>Documents\<close>

text \<open>
  A document as the two substitutions of \<open>minify_html\<close> read it: a text, and then the
  style and script blocks, each with the text that follows it. A block is its opening
  tag as written (\<open><style\<close> or \<open><script\<close> in any mix of cases), the attribute text up to
  the \<open>>\<close>, the content, and the closing tag as written.
\<close>

datatype block =
    Style pystr pystr pystr pystr
  | Script pystr pystr pystr pystr














text \<open>
  The placeholder of a block: \<open>Inl i\<close> is the key of the style block of index \<open>i\<close>,
  \<open>Inr j\<close> of the script block of index \<open>j\<close>.
\<close>

fun mark :: "nat + nat \<Rightarrow> pystr" where
  "mark (Inl i) = style_marker i"
| "mark (Inr j) = script_marker j"






section \<open>Evaluation\<close>

lemmas unfold_all =
  minify_css_def minify_js_def minify_html_def S_def css_special_def paren_def js_punct_def
  is_space_def strip_def Let_def alnum_def is_word_def ident_char_def word_at_def boundary_def
  first_char_def reserved_def reserved_in_of_def keyword_at_def ident_next_def
  style_marker_def script_marker_def replace_style_def replace_script_def block_at_def
  collapse_html_def ci_match_def digits.simps contains_def has_delimited_def


section \<open>No pass of minify\_css makes a text longer\<close>

lemma sub_delimited_length: "length (sub_delimited op cl s) \<le> length s"
proof (induction op cl s rule: sub_delimited.induct)
  case (1 op cl)
  then show ?case by simp
next
  case (2 op cl c cs)
  show ?case
  proof (cases "if starts_with (=) op (c # cs) then find_at (=) cl (drop (length op - 1) cs) else None")
    case None
    with 2 show ?thesis by simp
  next
    case (Some x)
    obtain body rest where x: "x = (body, rest)" by (cases x)
    from Some x have "find_at (=) cl (drop (length op - 1) cs) = Some (body, rest)"
      by (simp split: if_splits)
    from find_at_length [OF this] have "length rest \<le> length cs" by simp
    moreover from 2(2) [OF Some x [symmetric]] have "length (sub_delimited op cl rest) \<le> length rest" .
    ultimately show ?thesis using Some x by simp
  qed
qed

lemma sub_ws_runs_length: "length (sub_ws_runs s) \<le> length s"
proof (induction s rule: sub_ws_runs.induct)
  case 1
  then show ?case by simp
next
  case (2 c cs)
  have "length (dropWhile is_space cs) \<le> length cs" by (rule length_dropWhile_le)
  with 2 show ?case by (cases "is_space c") auto
qed

lemma sub_around_length: "length (sub_around P s) \<le> length s"
proof (induction P s rule: sub_around.induct)
  case (1 P)
  then show ?case by simp
next
  case (2 P c cs)
  show ?case
  proof (cases "dropWhile is_space (c # cs)")
    case Nil
    with 2 show ?thesis by simp
  next
    case (Cons d ds)
    have a: "length (d # ds) \<le> length (c # cs)" by (metis Cons length_dropWhile_le)
    have b: "length (dropWhile is_space ds) \<le> length ds" by (rule length_dropWhile_le)
    show ?thesis
    proof (cases "P d")
      case True
      with 2(2) [OF Cons True] a b Cons show ?thesis by simp
    next
      case False
      with 2(3) [OF Cons False] Cons show ?thesis by simp
    qed
  qed
qed

lemma replace_length: "length new \<le> length old \<Longrightarrow> old \<noteq> [] \<Longrightarrow> length (replace old new s) \<le> length s"
proof (induction old new s rule: replace.induct)
  case (1 old new)
  then show ?case by simp
next
  case (2 old new c cs)
  show ?case
  proof (cases "starts_with (=) old (c # cs)")
    case True
    have len: "starts_with (=) p s \<Longrightarrow> length p \<le> length s" for p s :: pystr
      by (induction "(=) :: nat \<Rightarrow> nat \<Rightarrow> bool" p s rule: starts_with.induct) auto
    from len [OF True] have "length old \<le> Suc (length cs)" by simp
    moreover from 2(1) [OF True] 2(3,4)
    have "length (replace old new (drop (length old - 1) cs)) \<le> length cs - (length old - 1)" by simp
    ultimately show ?thesis using True 2(3,4) by (cases old) auto
  next
    case False
    with 2 show ?thesis by simp
  qed
qed

lemma strip_length: "length (strip s) \<le> length s"
proof -
  have "length (dropWhile is_space (rev (dropWhile is_space s))) \<le> length (rev (dropWhile is_space s))"
    by (rule length_dropWhile_le)
  also have "\<dots> \<le> length s" by (simp add: length_dropWhile_le)
  finally show ?thesis by (simp add: strip_def)
qed

lemma minify_css_length: "length (minify_css x) \<le> length x"
proof -
  let ?c1 = "sub_delimited (S ''/*'') (S ''*/'') x"
  let ?c2 = "sub_ws_runs ?c1"
  let ?c3 = "sub_around css_special ?c2"
  let ?c4 = "sub_around paren ?c3"
  let ?c5 = "replace (S '';}'') (S ''}'') ?c4"
  have "length (strip ?c5) \<le> length ?c5" by (rule strip_length)
  also have "\<dots> \<le> length ?c4" by (rule replace_length) (simp_all add: S_def)
  also have "\<dots> \<le> length ?c3" by (rule sub_around_length)
  also have "\<dots> \<le> length ?c2" by (rule sub_around_length)
  also have "\<dots> \<le> length ?c1" by (rule sub_ws_runs_length)
  also have "\<dots> \<le> length x" by (rule sub_delimited_length)
  finally show ?thesis by (simp add: minify_css_def Let_def)
qed

section \<open>Whitespace after the passes of minify\_html\<close>

lemma starts_space_simps [simp]:
  "starts_space [] = False" "starts_space (c # cs) = is_space c"
  by (simp_all add: starts_space_def)

lemma has_double_ws_Cons: "has_double_ws (a # s) = ((is_space a \<and> starts_space s) \<or> has_double_ws s)"
  by (cases s) auto

lemma is_space_32 [simp]: "is_space 32"
  by (simp add: is_space_def)

lemma not_space_tags [simp]: "\<not> is_space 60" "\<not> is_space 62"
  by (simp_all add: is_space_def)

lemma starts_space_dropWhile [simp]: "\<not> starts_space (dropWhile is_space s)"
  by (induction s) auto

lemma starts_space_sub_ws_runs: "starts_space (sub_ws_runs s) = starts_space s"
  by (cases s) auto

lemma sub_ws_runs_single: "\<not> has_double_ws (sub_ws_runs s)"
proof (induction s rule: sub_ws_runs.induct)
  case 1
  then show ?case by simp
next
  case (2 c cs)
  then show ?case
    by (cases "is_space c") (auto simp: has_double_ws_Cons starts_space_sub_ws_runs)
qed

lemma has_double_ws_append_left: "has_double_ws t \<Longrightarrow> has_double_ws (a @ t)"
  by (induction a) (auto simp: has_double_ws_Cons)

lemma has_double_ws_append_right: "has_double_ws t \<Longrightarrow> has_double_ws (t @ b)"
proof (induction t rule: has_double_ws.induct)
  case (1 a b' s)
  then show ?case by auto
qed auto

lemma first_char_sub_tag_gap: "first_char (sub_tag_gap s) = first_char s"
proof (cases s)
  case Nil
  then show ?thesis by simp
next
  case (Cons c cs)
  show ?thesis
  proof (cases "if c = 62 \<and> takeWhile is_space cs \<noteq> [] then dropWhile is_space cs else []")
    case Nil
    with Cons show ?thesis by (simp add: first_char_def)
  next
    case (Cons d ds)
    then have "c = 62" by (auto split: if_splits)
    with Cons \<open>s = c # cs\<close> show ?thesis by (simp add: first_char_def)
  qed
qed

lemma starts_space_first_char: "starts_space s = (case first_char s of None \<Rightarrow> False | Some c \<Rightarrow> is_space c)"
  by (cases s) (simp_all add: first_char_def)

lemma starts_space_sub_tag_gap: "starts_space (sub_tag_gap s) = starts_space s"
  by (simp add: starts_space_first_char first_char_sub_tag_gap)

lemma sub_tag_gap_single: "\<not> has_double_ws s \<Longrightarrow> \<not> has_double_ws (sub_tag_gap s)"
proof (induction s rule: sub_tag_gap.induct)
  case 1
  then show ?case by simp
next
  case (2 c cs)
  from 2(4) have tail: "\<not> has_double_ws cs" and hd: "\<not> (is_space c \<and> starts_space cs)"
    by (auto simp: has_double_ws_Cons)
  show ?case
  proof (cases "if c = 62 \<and> takeWhile is_space cs \<noteq> [] then dropWhile is_space cs else []")
    case Nil
    with 2(1) [OF Nil tail] hd show ?thesis
      by (simp add: has_double_ws_Cons starts_space_sub_tag_gap)
  next
    case (Cons d ds)
    then have dw: "dropWhile is_space cs = d # ds" by (auto split: if_splits)
    show ?thesis
    proof (cases "d = 60")
      case True
      have "cs = takeWhile is_space cs @ d # ds"
        by (metis dw takeWhile_dropWhile_id)
      then have "has_double_ws ds \<Longrightarrow> has_double_ws cs"
        by (metis has_double_ws_append_left append_Cons append_Nil append_assoc)
      with tail have "\<not> has_double_ws ds" by blast
      from 2(2) [OF Cons True this] Cons True show ?thesis
        by (simp add: has_double_ws_Cons)
    next
      case False
      with 2(3) [OF Cons False tail] Cons hd show ?thesis
        by (simp add: has_double_ws_Cons starts_space_sub_tag_gap)
    qed
  qed
qed

lemma strip_decompose:
  "s = takeWhile is_space s @ strip s @ rev (takeWhile is_space (rev (dropWhile is_space s)))"
proof -
  let ?D = "dropWhile is_space s"
  have "rev (rev ?D) = rev (takeWhile is_space (rev ?D) @ dropWhile is_space (rev ?D))"
    by (simp only: takeWhile_dropWhile_id)
  then have "?D = rev (dropWhile is_space (rev ?D)) @ rev (takeWhile is_space (rev ?D))"
    by (simp only: rev_rev_ident rev_append)
  then have "?D = strip s @ rev (takeWhile is_space (rev ?D))"
    by (simp only: strip_def)
  moreover have "s = takeWhile is_space s @ ?D" by simp
  ultimately show ?thesis by metis
qed

lemma strip_single: "has_double_ws (strip s) \<Longrightarrow> has_double_ws s"
  by (metis strip_decompose has_double_ws_append_left has_double_ws_append_right)

lemma has_double_space_ws: "has_double_space s \<Longrightarrow> has_double_ws s"
  by (induction s rule: has_double_space.induct) auto

lemma collapse_html_no_double_space: "\<not> has_double_space (collapse_html t)"
  unfolding collapse_html_def
  using has_double_space_ws strip_single sub_tag_gap_single sub_ws_runs_single by blast

lemma takeWhile_not_starts_space: "\<not> starts_space s \<Longrightarrow> takeWhile is_space s = []"
  by (cases s) auto

lemma dropWhile_not_starts_space: "\<not> starts_space s \<Longrightarrow> dropWhile is_space s = s"
  by (cases s) auto

lemma sub_tag_gap_ws_prefix:
  "sub_tag_gap s = takeWhile is_space s @ sub_tag_gap (dropWhile is_space s)"
proof (induction s)
  case Nil
  then show ?case by simp
next
  case (Cons c cs)
  show ?case
  proof (cases "is_space c")
    case True
    then have "c \<noteq> 62" by auto
    with True Cons show ?thesis by simp
  next
    case False
    then show ?thesis by simp
  qed
qed

lemma takeWhile_sub_tag_gap: "takeWhile is_space (sub_tag_gap s) = takeWhile is_space s"
proof -
  have ns: "\<not> starts_space (sub_tag_gap (dropWhile is_space s))"
    by (simp add: starts_space_sub_tag_gap)
  have "takeWhile is_space (takeWhile is_space s @ sub_tag_gap (dropWhile is_space s))
          = takeWhile is_space s @ takeWhile is_space (sub_tag_gap (dropWhile is_space s))"
    by (rule takeWhile_append2) (auto dest: set_takeWhileD)
  with ns show ?thesis
    by (metis sub_tag_gap_ws_prefix takeWhile_not_starts_space append_Nil2)
qed

lemma dropWhile_sub_tag_gap: "dropWhile is_space (sub_tag_gap s) = sub_tag_gap (dropWhile is_space s)"
proof -
  have ns: "\<not> starts_space (sub_tag_gap (dropWhile is_space s))"
    by (simp add: starts_space_sub_tag_gap)
  have "dropWhile is_space (takeWhile is_space s @ sub_tag_gap (dropWhile is_space s))
          = dropWhile is_space (sub_tag_gap (dropWhile is_space s))"
    by (rule dropWhile_append2) (auto dest: set_takeWhileD)
  with ns show ?thesis
    by (metis sub_tag_gap_ws_prefix dropWhile_not_starts_space)
qed

lemma sub_tag_gap_no_gap: "\<not> has_tag_gap (sub_tag_gap s)"
proof (induction s rule: sub_tag_gap.induct)
  case 1
  then show ?case by simp
next
  case (2 c cs)
  have gap_eq: "(takeWhile is_space (sub_tag_gap cs) \<noteq> [] \<and>
                 first_char (dropWhile is_space (sub_tag_gap cs)) = Some 60)
              = (takeWhile is_space cs \<noteq> [] \<and> first_char (dropWhile is_space cs) = Some 60)"
    by (simp add: takeWhile_sub_tag_gap dropWhile_sub_tag_gap first_char_sub_tag_gap)
  show ?case
  proof (cases "if c = 62 \<and> takeWhile is_space cs \<noteq> [] then dropWhile is_space cs else []")
    case Nil
    have "\<not> (c = 62 \<and> takeWhile is_space cs \<noteq> [] \<and> first_char (dropWhile is_space cs) = Some 60)"
    proof
      assume a: "c = 62 \<and> takeWhile is_space cs \<noteq> [] \<and> first_char (dropWhile is_space cs) = Some 60"
      with Nil have "dropWhile is_space cs = []" by (simp del: dropWhile_eq_Nil_conv)
      then have "first_char (dropWhile is_space cs) = None" by (simp only: first_char_def list.case)
      with a show False by simp
    qed
    with 2(1) [OF Nil] Nil gap_eq show ?thesis by simp
  next
    case (Cons d ds)
    then have dw: "dropWhile is_space cs = d # ds" by (auto split: if_splits)
    show ?thesis
    proof (cases "d = 60")
      case True
      with 2(2) [OF Cons True] Cons show ?thesis by simp
    next
      case False
      with dw have "\<not> (c = 62 \<and> takeWhile is_space cs \<noteq> [] \<and> first_char (dropWhile is_space cs) = Some 60)"
        by (simp add: first_char_def)
      with 2(3) [OF Cons False] Cons False gap_eq show ?thesis by simp
    qed
  qed
qed

lemma has_tag_gap_append_left: "has_tag_gap t \<Longrightarrow> has_tag_gap (a @ t)"
  by (induction a) auto

lemma has_tag_gap_append_right: "has_tag_gap t \<Longrightarrow> has_tag_gap (t @ b)"
proof (induction t)
  case Nil
  then show ?case by simp
next
  case (Cons c cs)
  show ?case
  proof (cases "has_tag_gap cs")
    case True
    with Cons.IH show ?thesis by simp
  next
    case False
    with Cons.prems have c: "c = 62" and tw: "takeWhile is_space cs \<noteq> []"
      and fc: "first_char (dropWhile is_space cs) = Some 60"
      by auto
    from fc have "dropWhile is_space cs \<noteq> []"
      by (cases "dropWhile is_space cs") (simp_all add: first_char_def)
    then obtain x where x: "x \<in> set cs" "\<not> is_space x"
      by (metis dropWhile_eq_Nil_conv)
    then have "takeWhile is_space (cs @ b) = takeWhile is_space cs"
      and "dropWhile is_space (cs @ b) = dropWhile is_space cs @ b"
      by (simp_all add: takeWhile_append1 dropWhile_append1)
    with c tw fc \<open>dropWhile is_space cs \<noteq> []\<close> show ?thesis
      by (cases "dropWhile is_space cs") (auto simp: first_char_def)
  qed
qed

lemma strip_no_gap: "has_tag_gap (strip s) \<Longrightarrow> has_tag_gap s"
  by (metis strip_decompose has_tag_gap_append_left has_tag_gap_append_right)

lemma collapse_html_no_tag_gap: "\<not> has_tag_gap (collapse_html t)"
  unfolding collapse_html_def using strip_no_gap sub_tag_gap_no_gap by blast

section \<open>Tags and blocks\<close>






lemma ci_match_symbol [simp]:
  "ci_match 60 c \<longleftrightarrow> c = 60" "ci_match 62 c \<longleftrightarrow> c = 62" "ci_match 47 c \<longleftrightarrow> c = 47"
  by (auto simp: ci_match_def)









section \<open>The blocks that the callbacks build\<close>




lemma ci_match_refl [simp]: "ci_match p p"
  by (simp add: ci_match_def)



section \<open>Text without a tag, and a block with text after it\<close>





section \<open>Comments\<close>

lemma starts_with_prefix: "starts_with (=) p s \<longleftrightarrow> prefix p s"
proof (induction p arbitrary: s)
  case Nil
  then show ?case by simp
next
  case (Cons a p)
  then show ?case by (cases s) auto
qed

lemma find_at_None_iff: "find_at (=) p s = None \<longleftrightarrow> \<not> sublist p s"
proof (induction s)
  case Nil
  then show ?case by simp
next
  case (Cons c cs)
  then show ?case
    by (auto simp: sublist_Cons_right starts_with_prefix split: option.splits)
qed

lemma contains_sublist: "contains p s \<longleftrightarrow> sublist p s"
  by (simp add: contains_def find_at_None_iff)

lemma find_at_here: "starts_with (=) p s \<Longrightarrow> \<exists>r. find_at (=) p s = Some ([], r) \<and> s = p @ r"
proof (cases s)
  case Nil
  assume "starts_with (=) p s"
  with Nil show ?thesis by (cases p) auto
next
  case (Cons c cs)
  assume a: "starts_with (=) p s"
  then obtain r where r: "s = p @ r" by (auto simp: starts_with_prefix prefix_def)
  then have "drop (length p) s = r" by simp
  with a Cons r show ?thesis by auto
qed

lemma sublist_suffix: "sublist x v \<Longrightarrow> suffix v a \<Longrightarrow> sublist x a"
proof -
  assume "sublist x v" and "suffix v a"
  then obtain ps ss w where "v = ps @ x @ ss" and "a = w @ v"
    by (auto simp: sublist_def suffix_def)
  then have "a = (w @ ps) @ x @ ss" by simp
  then show ?thesis unfolding sublist_def by blast
qed

lemma find_at_SomeD: "find_at (=) p s = Some (b, a) \<Longrightarrow> s = b @ p @ a"
proof (induction s arbitrary: b)
  case Nil
  then show ?case by (simp split: if_splits)
next
  case (Cons c cs)
  show ?case
  proof (cases "starts_with (=) p (c # cs)")
    case True
    from find_at_here [OF this] Cons.prems show ?thesis by auto
  next
    case False
    with Cons.prems obtain b' where "find_at (=) p cs = Some (b', a)" and "b = c # b'"
      by (auto split: option.splits)
    with Cons.IH [of b'] show ?thesis by simp
  qed
qed

lemma find_at_first:
  "s = u @ p @ v \<Longrightarrow> \<exists>b a. find_at (=) p s = Some (b, a) \<and> suffix v a"
proof (induction u arbitrary: s)
  case Nil
  then have "starts_with (=) p s" by (simp add: starts_with_prefix)
  from find_at_here [OF this] Nil show ?case by auto
next
  case (Cons c u)
  then have s: "s = c # u @ p @ v" by simp
  show ?case
  proof (cases "starts_with (=) p s")
    case True
    have "drop (length p) ((c # u @ p) @ v) = drop (length p) (c # u @ p) @ v"
      by (subst drop_append) simp
    then have "drop (length p) s = drop (length p) (c # u @ p) @ v"
      using s by simp
    then have "suffix v (drop (length p) s)" by (simp add: suffix_def)
    moreover from True s have "find_at (=) p s = Some ([], drop (length p) s)" by simp
    ultimately show ?thesis by blast
  next
    case False
    from Cons.IH [of "u @ p @ v"] obtain b a where "find_at (=) p (u @ p @ v) = Some (b, a)" "suffix v a"
      by blast
    with False s show ?thesis by simp
  qed
qed

text \<open>A comment: an \<open>op\<close>, and a \<open>cl\<close> in the text after it.\<close>

lemma has_delimited_iff:
  "has_delimited op cl s \<longleftrightarrow> (\<exists>u v. s = u @ op @ v \<and> sublist cl v)"
proof
  assume "has_delimited op cl s"
  then obtain b rest where "find_at (=) op s = Some (b, rest)" and "contains cl rest"
    by (auto simp: has_delimited_def split: option.splits)
  with find_at_SomeD [OF this(1)] show "\<exists>u v. s = u @ op @ v \<and> sublist cl v"
    by (auto simp: contains_sublist)
next
  assume "\<exists>u v. s = u @ op @ v \<and> sublist cl v"
  then obtain u v where s: "s = u @ op @ v" and cl: "sublist cl v" by blast
  from find_at_first [OF s] obtain b a where f: "find_at (=) op s = Some (b, a)" and va: "suffix v a"
    by blast
  from cl va have "sublist cl a"
    by (rule sublist_suffix)
  with f show "has_delimited op cl s"
    by (simp add: has_delimited_def contains_sublist)
qed

lemma sublist_trans2: "sublist a b \<Longrightarrow> sublist b c \<Longrightarrow> sublist a c"
proof -
  assume "sublist a b" and "sublist b c"
  then obtain p1 s1 p2 s2 where "b = p1 @ a @ s1" and "c = p2 @ b @ s2"
    unfolding sublist_def by blast
  then have "c = (p2 @ p1) @ a @ (s1 @ s2)" by simp
  then show ?thesis unfolding sublist_def by blast
qed

lemma joint_freeD:
  assumes "joint_free op s" and "op = p @ q" and "p \<noteq> []" and "q \<noteq> []"
  shows "\<not> sublist (p @ op) s"
proof -
  from assms(3) have "1 \<le> length p" by (cases p) simp_all
  moreover from assms(2,4) have "length p < length op" by (cases q) simp_all
  ultimately have "length p \<in> set [1..<length op]" by simp
  with assms(1) have "\<not> contains (take (length p) op @ op) s"
    unfolding joint_free_def list_all_iff by blast
  moreover from assms(2) have "take (length p) op = p" by simp
  ultimately show ?thesis by (simp add: contains_sublist)
qed

lemma joint_free_sublist:
  assumes "joint_free op s" and "sublist t s"
  shows "joint_free op t"
  unfolding joint_free_def list_all_iff contains_sublist
proof
  fix k assume "k \<in> set [1..<length op]"
  with assms(1) have "\<not> sublist (take k op @ op) s"
    unfolding joint_free_def list_all_iff contains_sublist by blast
  with assms(2) show "\<not> sublist (take k op @ op) t"
    using sublist_trans2 by blast
qed

text \<open>The text has a comment: an \<open>op\<close> with a \<open>cl\<close> after it.\<close>

lemma has_delimited_Cons: "has_delimited op cl cs \<Longrightarrow> has_delimited op cl (c # cs)"
proof -
  assume "has_delimited op cl cs"
  then obtain u v where "cs = u @ op @ v" and "sublist cl v"
    unfolding has_delimited_iff by blast
  then have "c # cs = (c # u) @ op @ v \<and> sublist cl v" by simp
  then show ?thesis unfolding has_delimited_iff by blast
qed

lemma match_here:
  assumes "op \<noteq> []" and "starts_with (=) op (c # cs)"
  shows "c # cs = op @ drop (length op - 1) cs"
proof -
  from assms(2) obtain r where r: "c # cs = op @ r"
    by (auto simp: starts_with_prefix prefix_def)
  from assms(1) obtain a op' where op: "op = a # op'" by (cases op) auto
  with r have "cs = op' @ r" by simp
  then have "drop (length op - 1) cs = r" using op by simp
  with r show ?thesis by simp
qed

lemma match_found:
  assumes "op \<noteq> []"
    and "(if starts_with (=) op (c # cs) then find_at (=) cl (drop (length op - 1) cs) else None)
           = Some (body, rest)"
  shows "c # cs = op @ body @ cl @ rest"
proof -
  from assms(2) have sw: "starts_with (=) op (c # cs)"
    and f: "find_at (=) cl (drop (length op - 1) cs) = Some (body, rest)"
    by (auto split: if_splits)
  from match_here [OF assms(1) sw] find_at_SomeD [OF f] show ?thesis by simp
qed

lemma match_not_found:
  assumes "op \<noteq> []" and "starts_with (=) op (c # cs)"
    and "find_at (=) cl (drop (length op - 1) cs) = None"
  shows "\<not> has_delimited op cl (c # cs)"
proof
  assume "has_delimited op cl (c # cs)"
  then obtain u v where s: "c # cs = u @ op @ v" and cl: "sublist cl v"
    unfolding has_delimited_iff by blast
  let ?t = "drop (length op - 1) cs"
  from match_here [OF assms(1,2)] have t: "c # cs = op @ ?t" .
  have "suffix v (c # cs)" using s by (metis suffixI append.assoc)
  moreover have "suffix ?t (c # cs)" using t by (metis suffixI)
  moreover have "length v \<le> length ?t"
  proof -
    from s have "length (c # cs) = length u + length op + length v" by (metis length_append add.assoc)
    moreover from t have "length (c # cs) = length op + length ?t" by (metis length_append)
    ultimately show ?thesis by linarith
  qed
  ultimately have "suffix v ?t" by (rule suffix_length_suffix)
  with cl have "sublist cl ?t" by (rule sublist_suffix)
  with assms(3) show False by (simp add: find_at_None_iff)
qed

lemma sub_delimited_id:
  assumes "op \<noteq> []"
  shows "\<not> has_delimited op cl s \<Longrightarrow> sub_delimited op cl s = s"
  using assms
proof (induction op cl s rule: sub_delimited.induct)
  case (1 op cl)
  then show ?case by simp
next
  case (2 op cl c cs)
  let ?m = "if starts_with (=) op (c # cs) then find_at (=) cl (drop (length op - 1) cs) else None"
  show ?case
  proof (cases ?m)
    case None
    from 2(3) have "\<not> has_delimited op cl cs"
      using has_delimited_Cons by blast
    from 2(1) [OF None this 2(4)] None show ?thesis by simp
  next
    case (Some x)
    obtain body rest where x: "x = (body, rest)" by (cases x)
    from match_found [OF 2(4) Some [unfolded x]] have "c # cs = [] @ op @ (body @ cl @ rest)"
      by simp
    moreover have "sublist cl (body @ cl @ rest)" by simp
    ultimately have "has_delimited op cl (c # cs)"
      unfolding has_delimited_iff by blast
    with 2(3) show ?thesis by simp
  qed
qed

text \<open>
  What the result of the substitution starts with is copied from the start of the
  text, up to the first place where a comment was removed.
\<close>

lemma sub_delimited_prefix:
  assumes "op \<noteq> []"
  shows "prefix x (sub_delimited op cl t) \<Longrightarrow>
           prefix x t \<or> (\<exists>p q. x = p @ q \<and> q \<noteq> [] \<and> prefix (p @ op) t)"
  using assms
proof (induction op cl t arbitrary: x rule: sub_delimited.induct)
  case (1 op cl)
  then show ?case by simp
next
  case (2 op cl c cs)
  let ?m = "if starts_with (=) op (c # cs) then find_at (=) cl (drop (length op - 1) cs) else None"
  show ?case
  proof (cases x)
    case Nil
    then show ?thesis by simp
  next
    case (Cons a x')
    show ?thesis
    proof (cases ?m)
      case None
      with 2(3) Cons have a: "a = c" and x': "prefix x' (sub_delimited op cl cs)"
        by simp_all
      from 2(1) [OF None x' 2(4)]
      show ?thesis
      proof
        assume "prefix x' cs"
        with a Cons show ?thesis by simp
      next
        assume "\<exists>p q. x' = p @ q \<and> q \<noteq> [] \<and> prefix (p @ op) cs"
        then obtain p q where "x' = p @ q" "q \<noteq> []" "prefix (p @ op) cs" by blast
        with a Cons have "x = (c # p) @ q \<and> q \<noteq> [] \<and> prefix ((c # p) @ op) (c # cs)"
          by simp
        then show ?thesis by blast
      qed
    next
      case (Some y)
      then have "starts_with (=) op (c # cs)" by (auto split: if_splits)
      then have "prefix ([] @ op) (c # cs)" by (simp add: starts_with_prefix)
      moreover have "x = [] @ x \<and> x \<noteq> []" using Cons by simp
      ultimately show ?thesis by blast
    qed
  qed
qed

text \<open>
  The result of removing the comments has no comment, when no proper beginning of \<open>op\<close>
  stood directly in front of an \<open>op\<close> in the text.
\<close>

lemma sub_delimited_clean:
  assumes "op \<noteq> []"
  shows "joint_free op s \<Longrightarrow> \<not> has_delimited op cl (sub_delimited op cl s)"
  using assms
proof (induction op cl s rule: sub_delimited.induct)
  case (1 op cl)
  then show ?case by (simp add: has_delimited_def)
next
  case (2 op cl c cs)
  let ?m = "if starts_with (=) op (c # cs) then find_at (=) cl (drop (length op - 1) cs) else None"
  show ?case
  proof (cases ?m)
    case (Some x)
    obtain body rest where x: "x = (body, rest)" by (cases x)
    from match_found [OF 2(4) Some [unfolded x]] have "c # cs = (op @ body @ cl) @ rest"
      by simp
    then have "suffix rest (c # cs)" by (rule suffixI)
    then have "joint_free op rest"
      using 2(3) joint_free_sublist suffix_imp_sublist by blast
    from 2(2) [OF Some x [symmetric] this 2(4)] Some x show ?thesis by simp
  next
    case None
    show ?thesis
    proof (cases "starts_with (=) op (c # cs)")
      case True
      with None have "find_at (=) cl (drop (length op - 1) cs) = None" by simp
      from match_not_found [OF 2(4) True this] have no: "\<not> has_delimited op cl (c # cs)" .
      from sub_delimited_id [OF 2(4) this] no show ?thesis by simp
    next
      case False
      have "joint_free op cs"
        using 2(3) joint_free_sublist [of op "c # cs" cs] by (simp add: sublist_Cons_right)
      from 2(1) [OF None this 2(4)] have ih: "\<not> has_delimited op cl (sub_delimited op cl cs)" .
      have res: "sub_delimited op cl (c # cs) = c # sub_delimited op cl cs"
        using None by simp
      show ?thesis
      proof
        assume "has_delimited op cl (sub_delimited op cl (c # cs))"
        then obtain u v where uv: "c # sub_delimited op cl cs = u @ op @ v" and cl: "sublist cl v"
          unfolding res has_delimited_iff by blast
        show False
        proof (cases u)
          case (Cons a u')
          with uv have "sub_delimited op cl cs = u' @ op @ v" by simp
          with cl ih show False unfolding has_delimited_iff by blast
        next
          case Nil
          with uv have "prefix op (sub_delimited op cl (c # cs))"
            unfolding res by (simp add: prefix_def)
          from sub_delimited_prefix [OF 2(4) this]
          show False
          proof
            assume "prefix op (c # cs)"
            with False show False by (simp add: starts_with_prefix)
          next
            assume "\<exists>p q. op = p @ q \<and> q \<noteq> [] \<and> prefix (p @ op) (c # cs)"
            then obtain p q where pq: "op = p @ q" "q \<noteq> []" and pre: "prefix (p @ op) (c # cs)"
              by blast
            show False
            proof (cases "p = []")
              case True
              with pre False show False by (simp add: starts_with_prefix)
            next
              case False
              from joint_freeD [OF 2(3) pq(1) False pq(2)] pre show False
                by (simp add: prefix_imp_sublist)
            qed
          qed
        qed
      qed
    qed
  qed
qed

lemma S_comment:
  "S ''//'' = [47, 47]" "S ''/*'' = [47, 42]" "S ''*/'' = [42, 47]" "S ''//*'' = [47, 47, 42]"
  "S ''<!--'' = [60, 33, 45, 45]" "S ''-->'' = [45, 45, 62]"
  "S ''<<!--'' = [60, 60, 33, 45, 45]" "S ''<!<!--'' = [60, 33, 60, 33, 45, 45]"
  "S ''<!-<!--'' = [60, 33, 45, 60, 33, 45, 45]"
  by (simp_all add: S_def)

text \<open>After the line comments are removed no \<open>//\<close> is left.\<close>

lemma sub_line_comments_first:
  "first_char (sub_line_comments t) = Some 47 \<Longrightarrow> first_char t = Some 47"
proof (cases t)
  case Nil
  assume "first_char (sub_line_comments t) = Some 47"
  with Nil show ?thesis by simp
next
  case (Cons c cs)
  assume a: "first_char (sub_line_comments t) = Some 47"
  show ?thesis
  proof (cases "starts_with (=) (S ''//'') (c # cs)")
    case True
    then have "c = 47" by (cases cs) (simp_all add: S_comment)
    with Cons show ?thesis by (simp add: first_char_def)
  next
    case False
    with a Cons show ?thesis by (simp add: first_char_def)
  qed
qed

lemma sub_line_comments_clean: "\<not> sublist [47, 47] (sub_line_comments s)"
proof (induction s rule: sub_line_comments.induct)
  case 1
  then show ?case by simp
next
  case (2 c cs)
  show ?case
  proof (cases "starts_with (=) (S ''//'') (c # cs)")
    case True
    with 2(1) [OF True] show ?thesis by simp
  next
    case False
    from 2(2) [OF False] have ih: "\<not> sublist [47, 47] (sub_line_comments cs)" .
    have "\<not> prefix [47, 47] (c # sub_line_comments cs)"
    proof
      assume "prefix [47, 47] (c # sub_line_comments cs)"
      then have c: "c = 47" and "prefix [47] (sub_line_comments cs)" by simp_all
      then have "first_char (sub_line_comments cs) = Some 47"
        by (cases "sub_line_comments cs") (simp_all add: first_char_def)
      from sub_line_comments_first [OF this] obtain cs' where "cs = 47 # cs'"
        by (cases cs) (simp_all add: first_char_def)
      with c False show False by (simp add: S_comment)
    qed
    with ih False show ?thesis by (simp add: sublist_Cons_right)
  qed
qed

lemma joint_free_comment:
  "joint_free (S ''/*'') s \<longleftrightarrow> \<not> contains (S ''//*'') s"
  by (simp add: joint_free_def S_comment)

lemma joint_free_html_comment:
  "joint_free (S ''<!--'') s \<longleftrightarrow>
     \<not> contains (S ''<<!--'') s \<and> \<not> contains (S ''<!<!--'') s \<and> \<not> contains (S ''<!-<!--'') s"
proof -
  have "[1..<4] = [1, 2, 3]" by (simp add: upt_rec)
  then show ?thesis by (simp add: joint_free_def S_comment)
qed

lemma sub_line_comments_joint_free: "joint_free (S ''/*'') (sub_line_comments s)"
proof -
  have "sublist [47, 47] [47, 47, 42]"
    using sublist_append_rightI [of "[47, 47]" "[42]"] by simp
  then have "\<not> sublist [47, 47, 42] (sub_line_comments s)"
    using sub_line_comments_clean sublist_trans2 by blast
  then have "\<not> contains (S ''//*'') (sub_line_comments s)"
    by (simp add: contains_sublist S_comment)
  then show ?thesis using joint_free_comment by blast
qed

section \<open>The characters of what the passes return\<close>













section \<open>Counting opening tags\<close>







section \<open>Text around a placeholder\<close>












section \<open>Placeholders\<close>








lemma mark_values:
  "mark (Inl i) = [95, 95, 95, 83, 84, 89, 76, 69, 95, 66, 76, 79, 67, 75, 95] @ digits i @ [95, 95, 95]"
  "mark (Inr j) = [95, 95, 95, 83, 67, 82, 73, 80, 84, 95, 66, 76, 79, 67, 75, 95] @ digits j @ [95, 95, 95]"
  by (simp_all add: style_marker_def script_marker_def S_def)



section \<open>Replacing one placeholder\<close>







section \<open>Restoring the blocks\<close>






section \<open>The two extractions on a document\<close>












section \<open>The passes between extraction and restoration on a document\<close>
















section \<open>Stripping a document\<close>




section \<open>minify\_html on a document\<close>













section \<open>Counting the opening tags of a document\<close>















text \<open>
  C1. On the example document of the specification \<open>minify_html\<close> returns the text
  below: the whitespace in front of the style block and in front of the script block
  is kept as one space each, because \<open>>\s+<\<close> is removed while the blocks are still
  placeholders. The specification gives the text without the two spaces.
\<close>

theorem minify_html_example:
  "minify_html W example_html =
     S ''<div><p>Hi</p></div> <style>a{color:red}</style> <script>var x=1;if(x){return x;}</script>''"
  by (simp add: unfold_all example_html_def)

theorem minify_html_example_ascii:
  "minify_html (\<lambda>c. False) example_html \<noteq>
     S ''<div><p>Hi</p></div><style>a{color:red}</style><script>var x=1;if(x){return x;}</script>''"
  using minify_html_example [of "\<lambda>c. False"] by (simp add: S_def)

text \<open>
  C4. The two keyword substitutions ask for a word boundary between the keyword and
  the identifier character next to it, which holds for \<open>$\<close> only: a keyword fused with a
  letter stays fused. \<open>return/*c*/x\<close> becomes \<open>returnx\<close> and \<open>x/*c*/return\<close> becomes
  \<open>xreturn\<close>; with \<open>$\<close> the space is put in.
\<close>

theorem minify_js_keyword_fused:
  "minify_js W (S ''return/*c*/x'') = S ''returnx'' \<and>
   minify_js W (S ''x/*c*/return'') = S ''xreturn'' \<and>
   minify_js W (S ''return$x'') = S ''return $x'' \<and>
   minify_js W (S ''$return'') = S ''$ return''"
  by (simp add: unfold_all)

theorem minify_js_keyword_fused_ascii:
  "minify_js (\<lambda>c. False) (S ''return/*c*/x'') = S ''returnx''"
  using minify_js_keyword_fused [of "\<lambda>c. False"] by simp

text \<open>
  C9. \<open>minify_file\<close> on an existing file whose text is empty writes the (empty) output
  file and then raises \<open>ZeroDivisionError\<close> where the reduction is computed: it prints
  nothing and does not return \<open>True\<close>.
\<close>

theorem minify_file_empty:
  assumes "files w input_file = Some []"
  shows "minify_file W min_name w input_file output_file =
           (w\<lparr>files := (files w)((case output_file of None \<Rightarrow> min_name input_file | Some path \<Rightarrow> path) \<mapsto> [])\<rparr>,
            Inl ZeroDivisionError)"
proof -
  have "minify_html W [] = []"
    by (simp add: minify_html_def collapse_html_def strip_def)
  with assms show ?thesis
    by (simp add: minify_file_def)
qed

theorem minify_file_empty_witness:
  "minify_file (\<lambda>c. False) (\<lambda>path. path @ S ''.min'')
       \<lparr>files = [S ''a.html'' \<mapsto> []], printed = []\<rparr> (S ''a.html'') None =
     (\<lparr>files = [S ''a.html'' \<mapsto> [], S ''a.html'' @ S ''.min'' \<mapsto> []], printed = []\<rparr>,
      Inl ZeroDivisionError)"
  using minify_file_empty [of "\<lparr>files = [S ''a.html'' \<mapsto> []], printed = []\<rparr>" "S ''a.html''"
      "\<lambda>c. False" "\<lambda>path. path @ S ''.min''" None]
  by simp

text \<open>
  C2, as the code has it. What \<open>minify_html\<close> returns is the collapsed markup with the
  blocks put back; the collapsed markup itself, before the blocks are put back, has no
  two space characters next to each other and no whitespace between a \<open>>\<close> and a \<open><\<close>.
  The blocks are put back as they are, whitespace included.
\<close>

theorem minify_html_markup_collapsed:
  assumes "sub_style [] html_code = (style_blocks, html1)"
    and "sub_script W [] html1 = (script_blocks, html2)"
  shows "minify_html W html_code =
           restore script_marker 0 script_blocks
             (restore style_marker 0 style_blocks (collapse_html html2)) \<and>
         \<not> has_double_space (collapse_html html2) \<and> \<not> has_tag_gap (collapse_html html2)"
  using assms
  by (simp add: minify_html_def collapse_html_no_double_space collapse_html_no_tag_gap)

theorem minify_html_markup_collapsed_witness:
  "minify_html (\<lambda>c. False) (S ''<b>  x </b>   <i>y</i><script>  </script>'') =
     restore script_marker 0 [S ''<script>  </script>'']
       (restore style_marker 0 [] (collapse_html (S ''<b>  x </b>   <i>y</i>___SCRIPT_BLOCK_0___''))) \<and>
   \<not> has_double_space (collapse_html (S ''<b>  x </b>   <i>y</i>___SCRIPT_BLOCK_0___'')) \<and>
   \<not> has_tag_gap (collapse_html (S ''<b>  x </b>   <i>y</i>___SCRIPT_BLOCK_0___''))"
proof -
  have a: "sub_style [] (S ''<b>  x </b>   <i>y</i><script>  </script>'') =
             ([], S ''<b>  x </b>   <i>y</i><script>  </script>'')"
    by (simp add: unfold_all)
  have b: "sub_script (\<lambda>c. False) [] (S ''<b>  x </b>   <i>y</i><script>  </script>'') =
             ([S ''<script>  </script>''], S ''<b>  x </b>   <i>y</i>___SCRIPT_BLOCK_0___'')"
    by (simp add: unfold_all)
  from minify_html_markup_collapsed [OF a b] show ?thesis .
qed

text \<open>
  The claim as the specification states it fails: a script block that holds only
  whitespace is put back unchanged, so the text returned has two spaces in a row, and
  whitespace between \<open>>\<close> and \<open><\<close>.
\<close>

theorem minify_html_keeps_whitespace:
  "has_double_space (minify_html (\<lambda>c. False) (S ''<script>  </script>'')) \<and>
   has_tag_gap (minify_html (\<lambda>c. False) (S ''<script>  </script>''))"
  by (simp add: unfold_all)

text \<open>
  C3, as the code has it. \<open>minify_css\<close> never returns a text longer than the one it
  was given, so a second pass does not make the result of the first longer.
\<close>

theorem minify_css_second_pass:
  "length (minify_css (minify_css x)) \<le> length (minify_css x)"
  by (rule minify_css_length)

theorem minify_css_second_pass_witness:
  "length (minify_css (minify_css (S ''a { b : c ; ; }''))) \<le> length (minify_css (S ''a { b : c ; ; }''))"
  by (rule minify_css_second_pass)

text \<open>
  The claim as the specification states it fails: one pass removes one semicolon in
  front of a \<open>}\<close>, so the second pass changes \<open>a{b;}\<close> once more and its result is shorter.
\<close>

theorem minify_css_not_idempotent:
  "minify_css (S ''a{b;;}'') = S ''a{b;}'' \<and>
   minify_css (minify_css (S ''a{b;;}'')) = S ''a{b}'' \<and>
   minify_css (minify_css (S ''a{b;;}'')) \<noteq> minify_css (S ''a{b;;}'') \<and>
   length (minify_css (minify_css (S ''a{b;;}''))) < length (minify_css (S ''a{b;;}''))"
proof -
  have a: "minify_css (S ''a{b;;}'') = S ''a{b;}''"
    by (simp add: unfold_all)
  have b: "minify_css (S ''a{b;}'') = S ''a{b}''"
    by (simp add: unfold_all)
  show ?thesis by (simp add: a b) (simp add: S_def)
qed



text \<open>
  The claim as the specification states it fails: the attribute text of the first
  script block below is the text of the second block's placeholder, and the second
  loop puts the second block there as well.
\<close>

theorem minify_html_attributes_replaced:
  "minify_html (\<lambda>c. False) (S ''<script ___SCRIPT_BLOCK_1___>x</script><script>y</script>'') =
     S ''<script <script>y</script>>x</script><script>y</script>''"
  by (simp add: unfold_all)



text \<open>
  The claim as the specification states it fails: the script block of the document
  below has only whitespace for content; the text in front of it and the first
  characters of its placeholder read as the placeholder of the style block, the first
  loop replaces them, and the script block does not come back at all.
\<close>

theorem minify_html_blank_script_lost:
  "minify_html (\<lambda>c. False) (S ''___STYLE_BLOCK_0<script> </script><style>a</style>'') =
     S ''<style>a</style>SCRIPT_BLOCK_0___<style>a</style>''"
  by (simp add: unfold_all)



text \<open>
  The claim as the specification states it fails. In the first document the script
  tags stand in the content of a style block, and come back in upper case. In the
  second the script block is taken out and built in lower case, but the text in
  front of it and the first characters of its placeholder read as the placeholder of
  the style block: the first loop replaces them and the script block does not come
  back.
\<close>

theorem minify_html_upper_case_kept:
  "minify_html (\<lambda>c. False) (S ''<style><SCRIPT>a</SCRIPT></style>'') =
     S ''<style><SCRIPT>a</SCRIPT></style>'' \<and>
   minify_html (\<lambda>c. False) (S ''___STYLE_BLOCK_0<SCRIPT>x</SCRIPT><style>a</style>'') =
     S ''<style>a</style>SCRIPT_BLOCK_0___<style>a</style>''"
  by (simp add: unfold_all)

text \<open>
  C8, as the code has it. Each minifier removes comments in one scan from left to
  right. After the scan of \<open>minify_css\<close> no \<open>/*\<close> with a \<open>*/\<close> after it is left, when the
  text had no \<open>//*\<close>; after the two scans of \<open>minify_js\<close> (line comments, then block
  comments) none is left, for every text; after the scan of \<open>minify_html\<close> no \<open><!--\<close> with
  a \<open>-->\<close> after it is left, when the text had none of \<open><<!--\<close>, \<open><!<!--\<close>, \<open><!-<!--\<close>.
\<close>

theorem comment_scans_clean:
  assumes "\<not> contains (S ''//*'') css_code"
    and "\<not> contains (S ''<<!--'') html_code" and "\<not> contains (S ''<!<!--'') html_code"
    and "\<not> contains (S ''<!-<!--'') html_code"
  shows "\<not> has_delimited (S ''/*'') (S ''*/'') (sub_delimited (S ''/*'') (S ''*/'') css_code) \<and>
         \<not> has_delimited (S ''/*'') (S ''*/'')
             (sub_delimited (S ''/*'') (S ''*/'') (sub_line_comments js_code)) \<and>
         \<not> has_delimited (S ''<!--'') (S ''-->'') (sub_delimited (S ''<!--'') (S ''-->'') html_code)"
proof -
  have ne: "S ''/*'' \<noteq> []" "S ''<!--'' \<noteq> []"
    by (simp_all add: S_def)
  from assms(1) have "joint_free (S ''/*'') css_code"
    using joint_free_comment by blast
  from sub_delimited_clean [OF ne(1) this]
  have a: "\<not> has_delimited (S ''/*'') (S ''*/'') (sub_delimited (S ''/*'') (S ''*/'') css_code)" .
  from sub_delimited_clean [OF ne(1) sub_line_comments_joint_free]
  have b: "\<not> has_delimited (S ''/*'') (S ''*/'')
             (sub_delimited (S ''/*'') (S ''*/'') (sub_line_comments js_code))" .
  from assms(2-4) have "joint_free (S ''<!--'') html_code"
    using joint_free_html_comment by blast
  from sub_delimited_clean [OF ne(2) this]
  have c: "\<not> has_delimited (S ''<!--'') (S ''-->'') (sub_delimited (S ''<!--'') (S ''-->'') html_code)" .
  from a b c show ?thesis by blast
qed

theorem comment_scans_clean_witness:
  "\<not> has_delimited (S ''/*'') (S ''*/'') (sub_delimited (S ''/*'') (S ''*/'') (S ''a /* b */ c /* d'')) \<and>
   \<not> has_delimited (S ''/*'') (S ''*/'')
       (sub_delimited (S ''/*'') (S ''*/'') (sub_line_comments (S ''x //**/* y */''))) \<and>
   \<not> has_delimited (S ''<!--'') (S ''-->'') (sub_delimited (S ''<!--'') (S ''-->'') (S ''<p><!-- b --></p>''))"
proof -
  have "\<not> contains (S ''//*'') (S ''a /* b */ c /* d'')"
    and "\<not> contains (S ''<<!--'') (S ''<p><!-- b --></p>'')"
    and "\<not> contains (S ''<!<!--'') (S ''<p><!-- b --></p>'')"
    and "\<not> contains (S ''<!-<!--'') (S ''<p><!-- b --></p>'')"
    by (simp_all add: contains_def S_def)
  from comment_scans_clean [OF this, of "S ''x //**/* y */''"] show ?thesis .
qed

text \<open>
  The claim as the specification states it fails. Removing the comment of
  \<open>//**/* x */\<close> joins the \<open>/\<close> in front of it with the \<open>* x */\<close> after it, and \<open>minify_css\<close>
  returns the comment \<open>/* x */\<close>; in the same way \<open>minify_html\<close> returns \<open><!-- x -->\<close> for
  \<open><!-<!---->- x -->\<close>; and \<open>minify_js\<close>, which removes the spaces around \<open>/\<close> and \<open>*\<close> after
  the comments, turns \<open>/ * x * /\<close> into \<open>/*x*/\<close>.
\<close>

theorem comments_survive:
  "minify_css (S ''//**/* x */'') = S ''/* x */'' \<and>
   has_delimited (S ''/*'') (S ''*/'') (minify_css (S ''//**/* x */'')) \<and>
   minify_js (\<lambda>c. False) (S ''/ * x * /'') = S ''/*x*/'' \<and>
   has_delimited (S ''/*'') (S ''*/'') (minify_js (\<lambda>c. False) (S ''/ * x * /'')) \<and>
   minify_html (\<lambda>c. False) (S ''<!-<!---->- x -->'') = S ''<!-- x -->'' \<and>
   has_delimited (S ''<!--'') (S ''-->'') (minify_html (\<lambda>c. False) (S ''<!-<!---->- x -->''))"
proof -
  have a: "minify_css (S ''//**/* x */'') = S ''/* x */''"
    by (simp add: unfold_all)
  have b: "minify_js (\<lambda>c. False) (S ''/ * x * /'') = S ''/*x*/''"
    by (simp add: unfold_all)
  have c: "minify_html (\<lambda>c. False) (S ''<!-<!---->- x -->'') = S ''<!-- x -->''"
    by (simp add: unfold_all)
  have "has_delimited (S ''/*'') (S ''*/'') (S ''/* x */'')"
    and "has_delimited (S ''/*'') (S ''*/'') (S ''/*x*/'')"
    and "has_delimited (S ''<!--'') (S ''-->'') (S ''<!-- x -->'')"
    by (simp_all add: has_delimited_def contains_def S_def)
  with a b c show ?thesis by simp
qed




end
